theory Spec2Isabelle
  imports Main "HOL-Library.Multiset" "HOL-Library.Word"
begin

section \<open>The multiset binary search tree (multiset\_codec/msbst.py)\<close>

text \<open>
  A multiset is a nested tuple: either the empty tuple \<open>()\<close> or a 4-tuple
  \<open>(size, y, left, right)\<close>. Sizes are Python integers, hence \<open>int\<close>. Symbols are
  values of a totally ordered type, compared with \<open><\<close> and \<open>>\<close>.
\<close>

datatype py_error = ValueError | IndexError | AssertionError

datatype 'a mstree = MEmpty | MNode int 'a "'a mstree" "'a mstree"

text \<open>\<open>t[0] if t else 0\<close>: the size field of a node, 0 for the empty tuple.\<close>

fun size_or_zero :: "'a mstree \<Rightarrow> int" where
  "size_or_zero MEmpty = 0"
| "size_or_zero (MNode s y l r) = s"

text \<open>\<open>t[0]\<close> without a guard: indexing the empty tuple raises IndexError.\<close>

fun index0 :: "'a mstree \<Rightarrow> py_error + int" where
  "index0 MEmpty = Inl IndexError"
| "index0 (MNode s y l r) = Inr s"

text \<open>
  \<open>insert\<close>: \<open>multiset or (0, x, (), ())\<close> turns the empty tuple into a fresh node
  whose pivot is \<open>x\<close> itself, so neither comparison fires and the result is
  \<open>(1, x, (), ())\<close>.
\<close>

fun insert_bst :: "'a::linorder mstree \<Rightarrow> 'a \<Rightarrow> 'a mstree" where
  "insert_bst MEmpty x = MNode (0 + 1) x MEmpty MEmpty"
| "insert_bst (MNode s y l r) x =
     (if x < y then MNode (s + 1) y (insert_bst l x) r
      else if x > y then MNode (s + 1) y l (insert_bst r x)
      else MNode (s + 1) y l r)"

text \<open>
  \<open>remove\<close>: unpacking the empty tuple raises ValueError; a node of size 1 collapses to
  the empty tuple before any comparison.
\<close>

fun remove_bst :: "'a::linorder mstree \<Rightarrow> 'a \<Rightarrow> py_error + 'a mstree" where
  "remove_bst MEmpty x = Inl ValueError"
| "remove_bst (MNode s y l r) x =
     (if s = 1 then Inr MEmpty
      else if x < y then
        (case remove_bst l x of
           Inl e \<Rightarrow> Inl e
         | Inr l' \<Rightarrow> Inr (MNode (s - 1) y l' r))
      else if x > y then
        (case remove_bst r x of
           Inl e \<Rightarrow> Inl e
         | Inr r' \<Rightarrow> Inr (MNode (s - 1) y l r'))
      else Inr (MNode (s - 1) y l r))"

text \<open>
  \<open>forward_lookup\<close>: raises ValueError on the empty tuple. In the \<open>x > y\<close> branch the
  recursive call comes first and \<open>right[0]\<close> is read afterwards.
\<close>

fun forward_lookup :: "'a::linorder mstree \<Rightarrow> 'a \<Rightarrow> py_error + (int \<times> int)" where
  "forward_lookup MEmpty x = Inl ValueError"
| "forward_lookup (MNode s y l r) x =
     (if x > y then
        (case forward_lookup r x of
           Inl e \<Rightarrow> Inl e
         | Inr (start_right, freq) \<Rightarrow>
             (case index0 r of
                Inl e \<Rightarrow> Inl e
              | Inr r0 \<Rightarrow> Inr (s - r0 + start_right, freq)))
      else if x < y then forward_lookup l x
      else
        (let start = size_or_zero l;
             freq = s - start - size_or_zero r
         in Inr (start, freq)))"

text \<open>
  \<open>reverse_lookup\<close>: the empty tuple is replaced by \<open>(0, (), (), ())\<close>, on which the
  assertion \<open>0 <= idx < size\<close> always fails.
\<close>

fun reverse_lookup :: "'a mstree \<Rightarrow> int \<Rightarrow> py_error + ((int \<times> int) \<times> 'a)" where
  "reverse_lookup MEmpty idx = Inl AssertionError"
| "reverse_lookup (MNode s y l r) idx =
     (if \<not> (0 \<le> idx \<and> idx < s) then Inl AssertionError
      else
        (let y_start = size_or_zero l;
             y_freq = s - y_start - size_or_zero r
         in if idx < y_start then reverse_lookup l idx
            else if idx \<ge> y_start + y_freq then
              (case index0 r of
                 Inl e \<Rightarrow> Inl e
               | Inr r0 \<Rightarrow>
                   (let size_not_right = s - r0
                    in case reverse_lookup r (idx - size_not_right) of
                         Inl e \<Rightarrow> Inl e
                       | Inr ((start, freq), x) \<Rightarrow>
                           Inr ((start + size_not_right, freq), x)))
            else Inr ((y_start, y_freq), y)))"

text \<open>
  \<open>insert_then_forward_lookup\<close>: in the \<open>x > y\<close> branch \<open>right[0]\<close> reads the size of
  the subtree returned by the recursive call.
\<close>

fun insert_then_forward_lookup ::
  "'a::linorder mstree \<Rightarrow> 'a \<Rightarrow> py_error + ('a mstree \<times> (int \<times> int))" where
  "insert_then_forward_lookup MEmpty x =
     (let s = 0 + 1; start = size_or_zero (MEmpty :: 'a mstree);
          freq = s - start - size_or_zero (MEmpty :: 'a mstree)
      in Inr (MNode s x MEmpty MEmpty, (start, freq)))"
| "insert_then_forward_lookup (MNode s0 y l r) x =
     (let s = s0 + 1
      in if x > y then
           (case insert_then_forward_lookup r x of
              Inl e \<Rightarrow> Inl e
            | Inr (r', (start_right, freq)) \<Rightarrow>
                (case index0 r' of
                   Inl e \<Rightarrow> Inl e
                 | Inr r0 \<Rightarrow> Inr (MNode s y l r', (s - r0 + start_right, freq))))
         else if x < y then
           (case insert_then_forward_lookup l x of
              Inl e \<Rightarrow> Inl e
            | Inr (l', (start, freq)) \<Rightarrow> Inr (MNode s y l' r, (start, freq)))
         else
           (let start = size_or_zero l;
                freq = s - start - size_or_zero r
            in Inr (MNode s y l r, (start, freq))))"

text \<open>
  \<open>reverse_lookup_then_remove\<close>: no assertion on \<open>idx\<close>; unpacking the empty tuple
  raises ValueError and \<open>right[0]\<close> on an empty right subtree raises IndexError. The
  result is the empty tuple when the decremented size is 0.
\<close>

fun reverse_lookup_then_remove ::
  "'a mstree \<Rightarrow> int \<Rightarrow> py_error + ('a mstree \<times> (int \<times> int) \<times> 'a)" where
  "reverse_lookup_then_remove MEmpty idx = Inl ValueError"
| "reverse_lookup_then_remove (MNode s y l r) idx =
     (let y_start = size_or_zero l;
          y_freq = s - y_start - size_or_zero r
      in if idx < y_start then
           (case reverse_lookup_then_remove l idx of
              Inl e \<Rightarrow> Inl e
            | Inr (l', (start, freq), x) \<Rightarrow>
                Inr (if s - 1 \<noteq> 0 then MNode (s - 1) y l' r else MEmpty, (start, freq), x))
         else if idx \<ge> y_start + y_freq then
           (case index0 r of
              Inl e \<Rightarrow> Inl e
            | Inr r0 \<Rightarrow>
                (let size_not_right = s - r0
                 in case reverse_lookup_then_remove r (idx - size_not_right) of
                      Inl e \<Rightarrow> Inl e
                    | Inr (r', (start, freq), x) \<Rightarrow>
                        Inr (if s - 1 \<noteq> 0 then MNode (s - 1) y l r' else MEmpty,
                             (start + size_not_right, freq), x)))
         else Inr (if s - 1 \<noteq> 0 then MNode (s - 1) y l r else MEmpty, (y_start, y_freq), y))"

text \<open>\<open>build_multiset\<close>: \<open>reduce(insert, sequence, ())\<close> is a left fold.\<close>

definition build_multiset :: "'a::linorder list \<Rightarrow> 'a mstree" where
  "build_multiset sequence = foldl insert_bst MEmpty sequence"

text \<open>
  \<open>to_sequence\<close>: in-order traversal; \<open>freq * [y]\<close> is the empty list when \<open>freq\<close> is
  not positive.
\<close>

fun to_sequence :: "'a mstree \<Rightarrow> 'a list" where
  "to_sequence MEmpty = []"
| "to_sequence (MNode s y l r) =
     to_sequence l
     @ replicate (nat (s - size_or_zero l - size_or_zero r)) y
     @ to_sequence r"

subsection \<open>Invariants of the tree\<close>

text \<open>The symbols stored as pivots, whatever their multiplicity.\<close>

fun symbols :: "'a mstree \<Rightarrow> 'a set" where
  "symbols MEmpty = {}"
| "symbols (MNode s y l r) = insert y (symbols l \<union> symbols r)"

text \<open>Search-tree order on the pivots.\<close>

fun bst_order :: "'a::linorder mstree \<Rightarrow> bool" where
  "bst_order MEmpty = True"
| "bst_order (MNode s y l r) =
     ((\<forall>z \<in> symbols l. z < y) \<and> (\<forall>z \<in> symbols r. y < z) \<and> bst_order l \<and> bst_order r)"

text \<open>
  The multiplicity of the pivot at a node is implicit:
  \<open>size - left.size - right.size\<close>.
\<close>

fun multiplicity_at :: "'a mstree \<Rightarrow> int" where
  "multiplicity_at MEmpty = 0"
| "multiplicity_at (MNode s y l r) = s - size_or_zero l - size_or_zero r"

text \<open>Every node holds its pivot at least once.\<close>

fun size_consistent :: "'a mstree \<Rightarrow> bool" where
  "size_consistent MEmpty = True"
| "size_consistent (MNode s y l r) =
     (1 \<le> multiplicity_at (MNode s y l r) \<and> size_consistent l \<and> size_consistent r)"

text \<open>
  Every node has a positive size that covers the sizes of its subtrees; the pivot's own
  multiplicity may be 0.
\<close>

fun size_sound :: "'a mstree \<Rightarrow> bool" where
  "size_sound MEmpty = True"
| "size_sound (MNode s y l r) =
     (1 \<le> s \<and> 0 \<le> multiplicity_at (MNode s y l r) \<and> size_sound l \<and> size_sound r)"

text \<open>
  The trees obtained from the empty multiset by the four mutating operations. A symbol is
  present when it is an element of the multiset, that is, when it occurs in
  \<open>to_sequence\<close>; an index is valid when \<open>0 \<le> idx < size\<close>.
\<close>

inductive reachable :: "'a::linorder mstree \<Rightarrow> bool" where
  reach_empty: "reachable MEmpty"
| reach_insert: "reachable t \<Longrightarrow> reachable (insert_bst t x)"
| reach_remove:
    "reachable t \<Longrightarrow> x \<in> set (to_sequence t) \<Longrightarrow> remove_bst t x = Inr t' \<Longrightarrow> reachable t'"
| reach_insert_lookup:
    "reachable t \<Longrightarrow> insert_then_forward_lookup t x = Inr (t', sl) \<Longrightarrow> reachable t'"
| reach_lookup_remove:
    "reachable t \<Longrightarrow> 0 \<le> idx \<Longrightarrow> idx < size_or_zero t \<Longrightarrow>
     reverse_lookup_then_remove t idx = Inr (t', sl, x) \<Longrightarrow> reachable t'"


section \<open>The rANS engine and the uniform codec\<close>

unbundle bit_operations_syntax

text \<open>
  Modelled from the spec: the module \<open>multiset_codec/rans.py\<close> is not among the
  sources; only its callers (\<open>codecs.py\<close>) and its tests (\<open>tests/test_rans.py\<close>)
  are. The engine below follows sections 3.1, 4.A, 4.F and 7 of the specification. An
  ANS state is a pair of a head, a vector of 64-bit unsigned lanes (flattened, first
  lane first), and a tail, a stack of 32-bit unsigned words with its top at the front
  of the list.
\<close>

type_synonym ans_state = "64 word list \<times> 32 word list"

text \<open>
  Modelled from the spec: the error kinds of section 7 that concern the engine.
\<close>

datatype rans_error = PrecisionOverflow | StateUnderflow | ShapeMismatch

text \<open>
  Modelled from the spec: \<open>RANS_BASE = 2^32\<close> (radix) and \<open>RANS_L = 2^32\<close>
  (renormalisation lower bound); \<open>RANS_H = 2^64\<close> is the range of a 64-bit lane.
\<close>

definition RANS_BASE :: "64 word" where "RANS_BASE = push_bit 32 1"
definition RANS_L :: "64 word" where "RANS_L = push_bit 32 1"

text \<open>
  Modelled from the spec: \<open>base_message(shape)\<close> without randomisation sets every
  lane to exactly \<open>RANS_L\<close> and leaves the tail empty.
\<close>

definition base_message :: "nat list \<Rightarrow> ans_state" where
  "base_message shape = (replicate (prod_list shape) RANS_L, [])"

text \<open>
  Modelled from the spec: the precision. Section 4.A writes the scaling of a lane by
  the CDF total with the precision as a bit count, \<open><< precision\<close>,
  \<open>>> precision\<close> and \<open>& ((1 << precision) - 1)\<close>. Section 4.F fixes what the
  engine is handed: ``the precision passed to rANS is the current multiset size,
  variable precision, not a power of two'', and the engine ``accepts arbitrary integer
  precisions''. The sources agree with 4.F: SamplingWithoutReplacement passes the
  multiset size and indexes the multiset with the CDF index it gets back, Uniform
  passes the size of its interval \<open>[0, prec)\<close>, and tests/test\_rans.py draws the
  symbols of precision 1337 from \<open>[0, 1337)\<close>. The precision is therefore the CDF
  total itself: where 4.A shifts or masks by the precision, the engine below
  multiplies by it, divides by it or takes the remainder, and the slice of section 7
  is checked against it.
\<close>

text \<open>
  Modelled from the spec: step 1 of encode, ``while \<open>h \<ge> max_h\<close>: push
  \<open>h & (RANS_BASE - 1)\<close> onto the tail stack, set \<open>h \<leftarrow> h >> 32\<close>''. The bound is
  a natural number, so that the comparison is ``written without overflow'' (4.F,
  section 9). Nothing bounds the number of rounds, so the loop is a partial function:
  \<open>None\<close> when it never ends.
\<close>

partial_function (option) renorm_push ::
  "nat \<Rightarrow> 64 word \<Rightarrow> 32 word list \<Rightarrow> (64 word \<times> 32 word list) option" where
  "renorm_push max_h h tail =
     (if unat h \<ge> max_h
      then renorm_push max_h (drop_bit 32 h) (ucast (h AND (RANS_BASE - 1)) # tail)
      else Some (h, tail))"

text \<open>
  Modelled from the spec: encode on one lane. Section 7 has the engine report
  PrecisionOverflow when the slice \<open>[start, start + freq)\<close> leaves the CDF total;
  then \<open>max_h\<close> is \<open>RANS_L / RANS_BASE\<close> scaled by the total, times \<open>freq\<close>,
  the loop runs, and the lane becomes \<open>h / freq\<close> scaled by the total, plus
  \<open>h mod freq + start\<close>, in 64-bit unsigned arithmetic.
\<close>

definition encode_lane ::
  "64 word \<Rightarrow> 32 word list \<Rightarrow> 64 word \<Rightarrow> 64 word \<Rightarrow> nat \<Rightarrow> (rans_error + 64 word \<times> 32 word list) option" where
  "encode_lane h tail start freq precision =
     (if unat start + unat freq > precision then Some (Inl PrecisionOverflow)
      else
        (let max_h = unat (RANS_L div RANS_BASE) * precision * unat freq
         in case renorm_push max_h h tail of
              None \<Rightarrow> None
            | Some (h1, tail1) \<Rightarrow>
                Some (Inr ((h1 div freq) * of_nat precision + (h1 mod freq) + start, tail1))))"

text \<open>
  Modelled from the spec: step 2 of pop, ``while \<open>h < RANS_L\<close>: pull the top of tail,
  set \<open>h \<leftarrow> (h << 32) | pulled\<close>''; by section 7 an empty tail is StateUnderflow.
\<close>

fun renorm_pull :: "64 word \<Rightarrow> 32 word list \<Rightarrow> rans_error + 64 word \<times> 32 word list" where
  "renorm_pull h [] = (if h < RANS_L then Inl StateUnderflow else Inr (h, []))"
| "renorm_pull h (w # tail) =
     (if h < RANS_L then renorm_pull (push_bit 32 h OR ucast w) tail else Inr (h, w # tail))"

text \<open>
  Modelled from the spec: the CDF index of a lane, the remainder of \<open>h\<close> by the
  total, and pop on one lane, \<open>h \<leftarrow> freq * (h / total) + cf - start\<close> followed by the
  pull loop. A total of 0 is outside the specification; quotient and remainder then
  are those of HOL (\<open>h div 0 = 0\<close>, \<open>h mod 0 = h\<close>), and no statement below reads
  them.
\<close>

definition cf_lane :: "64 word \<Rightarrow> nat \<Rightarrow> 64 word" where
  "cf_lane h precision = of_nat (unat h mod precision)"

definition pop_lane ::
  "64 word \<Rightarrow> 32 word list \<Rightarrow> 64 word \<Rightarrow> 64 word \<Rightarrow> nat \<Rightarrow> rans_error + 64 word \<times> 32 word list" where
  "pop_lane h tail start freq precision =
     renorm_pull (freq * of_nat (unat h div precision) + cf_lane h precision - start) tail"

text \<open>
  Modelled from the spec: \<open>start\<close> and \<open>freq\<close> are either a scalar, which every
  lane reads, or a vector with one entry for each lane. A vector of another length is
  reported as ShapeMismatch.
\<close>

datatype arg = Scalar "64 word" | PerLane "64 word list"

fun broadcast :: "nat \<Rightarrow> arg \<Rightarrow> rans_error + 64 word list" where
  "broadcast n (Scalar w) = Inr (replicate n w)"
| "broadcast n (PerLane ws) = (if length ws = n then Inr ws else Inl ShapeMismatch)"

text \<open>
  Modelled from the spec: the lanes are coded independently on one shared tail. The
  specification fixes no order among the lanes; here encode visits them first to last
  and pop last to first, the stack discipline under which every lane pulls the words
  it pushed itself.
\<close>

fun encode_lanes ::
  "(64 word \<times> 64 word \<times> 64 word) list \<Rightarrow> nat \<Rightarrow> 32 word list
     \<Rightarrow> (rans_error + 64 word list \<times> 32 word list) option" where
  "encode_lanes [] precision tail = Some (Inr ([], tail))"
| "encode_lanes ((h, start, freq) # rest) precision tail =
     (case encode_lane h tail start freq precision of
        None \<Rightarrow> None
      | Some (Inl e) \<Rightarrow> Some (Inl e)
      | Some (Inr (h', tail')) \<Rightarrow>
          (case encode_lanes rest precision tail' of
             None \<Rightarrow> None
           | Some (Inl e) \<Rightarrow> Some (Inl e)
           | Some (Inr (hs', tail'')) \<Rightarrow> Some (Inr (h' # hs', tail''))))"

fun pop_lanes ::
  "(64 word \<times> 64 word \<times> 64 word) list \<Rightarrow> nat \<Rightarrow> 32 word list
     \<Rightarrow> rans_error + 64 word list \<times> 32 word list" where
  "pop_lanes [] precision tail = Inr ([], tail)"
| "pop_lanes ((h, start, freq) # rest) precision tail =
     (case pop_lanes rest precision tail of
        Inl e \<Rightarrow> Inl e
      | Inr (hs', tail') \<Rightarrow>
          (case pop_lane h tail' start freq precision of
             Inl e \<Rightarrow> Inl e
           | Inr (h', tail'') \<Rightarrow> Inr (h' # hs', tail'')))"

text \<open>
  Modelled from the spec: \<open>rans.encode(state, start, freq, precision)\<close>, and
  \<open>rans.decode(state, precision)\<close>, which returns the per-lane CDF indices and the
  function \<open>pop(start, freq)\<close>.
\<close>

definition rans_encode :: "ans_state \<Rightarrow> arg \<Rightarrow> arg \<Rightarrow> nat \<Rightarrow> (rans_error + ans_state) option" where
  "rans_encode state start freq precision =
     (case state of (head, tail) \<Rightarrow>
        (case broadcast (length head) start of
           Inl e \<Rightarrow> Some (Inl e)
         | Inr starts \<Rightarrow>
             (case broadcast (length head) freq of
                Inl e \<Rightarrow> Some (Inl e)
              | Inr freqs \<Rightarrow> encode_lanes (zip head (zip starts freqs)) precision tail)))"

definition rans_pop :: "ans_state \<Rightarrow> nat \<Rightarrow> arg \<Rightarrow> arg \<Rightarrow> rans_error + ans_state" where
  "rans_pop state precision start freq =
     (case state of (head, tail) \<Rightarrow>
        (case broadcast (length head) start of
           Inl e \<Rightarrow> Inl e
         | Inr starts \<Rightarrow>
             (case broadcast (length head) freq of
                Inl e \<Rightarrow> Inl e
              | Inr freqs \<Rightarrow> pop_lanes (zip head (zip starts freqs)) precision tail)))"

definition rans_decode ::
  "ans_state \<Rightarrow> nat \<Rightarrow> 64 word list \<times> (arg \<Rightarrow> arg \<Rightarrow> rans_error + ans_state)" where
  "rans_decode state precision =
     (map (\<lambda>h. cf_lane h precision) (fst state), rans_pop state precision)"


subsection \<open>Uniform (multiset\_codec/codecs.py)\<close>

text \<open>
  \<open>Uniform(prec)\<close>: encode calls \<open>rans.encode(ans_state, symbol, 1, prec)\<close>; decode
  reads the CDF indices as the symbol and pops with them as starts and frequency 1.
\<close>

definition Uniform_encode :: "nat \<Rightarrow> ans_state \<Rightarrow> arg \<Rightarrow> (rans_error + ans_state) option" where
  "Uniform_encode prec ans_state symbol = rans_encode ans_state symbol (Scalar 1) prec"

definition Uniform_decode :: "nat \<Rightarrow> ans_state \<Rightarrow> rans_error + ans_state \<times> 64 word list" where
  "Uniform_decode prec ans_state =
     (case rans_decode ans_state prec of (symbol, decode') \<Rightarrow>
        (case decode' (PerLane symbol) (Scalar 1) of
           Inl e \<Rightarrow> Inl e
         | Inr ans_state' \<Rightarrow> Inr (ans_state', symbol)))"


section \<open>Properties of the multiset tree\<close>

subsection \<open>Auxiliary lemmas\<close>

lemma size_sound_nonneg: "size_sound t \<Longrightarrow> 0 \<le> size_or_zero t"
  by (cases t) auto

lemma size_insert_bst: "size_or_zero (insert_bst t x) = size_or_zero t + 1"
  by (cases t) auto

lemma symbols_insert_bst: "symbols (insert_bst t x) = insert x (symbols t)"
  by (induction t) auto

lemma bst_order_insert_bst: "bst_order t \<Longrightarrow> bst_order (insert_bst t x)"
  by (induction t) (auto simp: symbols_insert_bst)

lemma size_sound_insert_bst: "size_sound t \<Longrightarrow> size_sound (insert_bst t x)"
  by (induction t) (auto simp: size_insert_bst)

lemma size_consistent_insert_bst: "size_consistent t \<Longrightarrow> size_consistent (insert_bst t x)"
  by (induction t) (auto simp: size_insert_bst)

lemma length_to_sequence: "size_sound t \<Longrightarrow> int (length (to_sequence t)) = size_or_zero t"
  by (induction t) auto

lemma set_to_sequence: "set (to_sequence t) \<subseteq> symbols t"
  by (induction t) auto

lemma sorted_to_sequence: "bst_order t \<Longrightarrow> sorted (to_sequence t)"
proof (induction t)
  case MEmpty
  then show ?case by simp
next
  case (MNode s y l r)
  have l: "\<forall>z \<in> set (to_sequence l). z < y" using MNode.prems set_to_sequence[of l] by auto
  have r: "\<forall>z \<in> set (to_sequence r). y < z" using MNode.prems set_to_sequence[of r] by auto
  have "sorted (to_sequence l)" "sorted (to_sequence r)" using MNode by auto
  with l r show ?case by (fastforce simp: sorted_append)
qed

lemma mset_to_sequence_insert:
  "size_sound t \<Longrightarrow> mset (to_sequence (insert_bst t x)) = add_mset x (mset (to_sequence t))"
proof (induction t)
  case MEmpty
  then show ?case by simp
next
  case (MNode s y l r)
  have "nat (s + 1 - size_or_zero l - size_or_zero r) = Suc (nat (s - size_or_zero l - size_or_zero r))"
    using MNode.prems by (simp del: of_nat_Suc) arith
  with MNode show ?case
    by (auto simp: size_insert_bst algebra_simps)
qed

lemma foldl_insert_inv:
  "size_sound t \<Longrightarrow> bst_order t \<Longrightarrow>
   size_sound (foldl insert_bst t xs) \<and> bst_order (foldl insert_bst t xs)
   \<and> mset (to_sequence (foldl insert_bst t xs)) = mset (to_sequence t) + mset xs"
proof (induction xs arbitrary: t)
  case Nil
  then show ?case by simp
next
  case (Cons x xs)
  have "size_sound (insert_bst t x)" "bst_order (insert_bst t x)"
    using Cons.prems by (simp_all add: size_sound_insert_bst bst_order_insert_bst)
  from Cons.IH[OF this] show ?case
    using Cons.prems by (simp add: mset_to_sequence_insert)
qed

lemma remove_insert_bst: "size_sound t \<Longrightarrow> remove_bst (insert_bst t x) x = Inr t"
  by (induction t) auto

lemma itfl_eq:
  "insert_then_forward_lookup t x =
     (case forward_lookup (insert_bst t x) x of
        Inl e \<Rightarrow> Inl e
      | Inr sl \<Rightarrow> Inr (insert_bst t x, sl))"
  by (induction t) (auto split: sum.splits prod.splits simp: Let_def)

lemma forward_lookup_insert_total:
  "\<exists>st fr. forward_lookup (insert_bst t x) x = Inr (st, fr)"
proof (induction t)
  case MEmpty
  then show ?case by simp
next
  case (MNode s y l r)
  then show ?case
    by (cases "insert_bst r x") (auto simp: Let_def)
qed

lemma forward_lookup_bounds:
  "size_sound t \<Longrightarrow> forward_lookup t x = Inr (st, fr) \<Longrightarrow>
   0 \<le> st \<and> 0 \<le> fr \<and> st + fr \<le> size_or_zero t"
proof (induction t arbitrary: st fr)
  case MEmpty
  then show ?case by simp
next
  case (MNode s y l r)
  show ?case
  proof (cases "y < x")
    case True
    then obtain st' r0 where a: "forward_lookup r x = Inr (st', fr)" "index0 r = Inr r0"
        "st = s - r0 + st'"
      using MNode.prems(2) by (auto split: sum.splits prod.splits)
    have r0: "r0 = size_or_zero r" using a(2) by (cases r) auto
    have "0 \<le> st' \<and> 0 \<le> fr \<and> st' + fr \<le> size_or_zero r"
      using MNode.IH(2)[OF _ a(1)] MNode.prems(1) by simp
    then show ?thesis using a(3) r0 MNode.prems(1) size_sound_nonneg[of l] by auto
  next
    case False
    show ?thesis
    proof (cases "x < y")
      case True
      then have "forward_lookup l x = Inr (st, fr)" using MNode.prems(2) False by simp
      then have "0 \<le> st \<and> 0 \<le> fr \<and> st + fr \<le> size_or_zero l"
        using MNode.IH(1) MNode.prems(1) by simp
      then show ?thesis using MNode.prems(1) size_sound_nonneg[of r] by auto
    next
      case F2: False
      then show ?thesis using False MNode.prems size_sound_nonneg[of l] size_sound_nonneg[of r]
        by (auto simp: Let_def)
    qed
  qed
qed

lemma reverse_lookup_of_forward_lookup:
  "size_sound t \<Longrightarrow> forward_lookup t x = Inr (st, fr) \<Longrightarrow> st \<le> idx \<Longrightarrow> idx < st + fr \<Longrightarrow>
   reverse_lookup t idx = Inr ((st, fr), x)"
proof (induction t arbitrary: st fr idx)
  case MEmpty
  then show ?case by simp
next
  case (MNode s y l r)
  have bnd: "0 \<le> st \<and> 0 \<le> fr \<and> st + fr \<le> s"
    using forward_lookup_bounds[OF MNode.prems(1,2)] by simp
  show ?case
  proof (cases "y < x")
    case True
    then obtain st' r0 where a: "forward_lookup r x = Inr (st', fr)" "index0 r = Inr r0"
        "st = s - r0 + st'"
      using MNode.prems(2) by (auto split: sum.splits prod.splits)
    have r0: "r0 = size_or_zero r" using a(2) by (cases r) auto
    have b: "0 \<le> st' \<and> 0 \<le> fr \<and> st' + fr \<le> size_or_zero r"
      using forward_lookup_bounds[OF _ a(1)] MNode.prems(1) by simp
    have "reverse_lookup r (idx - (s - r0)) = Inr ((st', fr), x)"
      using MNode.IH(2)[OF _ a(1), of "idx - (s - r0)"] MNode.prems a(3) by simp
    then show ?thesis
      using a b r0 bnd MNode.prems size_sound_nonneg[of l] by (auto simp: Let_def)
  next
    case False
    show ?thesis
    proof (cases "x < y")
      case True
      then have a: "forward_lookup l x = Inr (st, fr)" using MNode.prems(2) False by simp
      have b: "0 \<le> st \<and> 0 \<le> fr \<and> st + fr \<le> size_or_zero l"
        using forward_lookup_bounds[OF _ a] MNode.prems(1) by simp
      have "reverse_lookup l idx = Inr ((st, fr), x)"
        using MNode.IH(1)[OF _ a] MNode.prems by simp
      then show ?thesis using b bnd MNode.prems by (auto simp: Let_def)
    next
      case F2: False
      then have "x = y" using False by simp
      then show ?thesis using bnd MNode.prems by (auto simp: Let_def)
    qed
  qed
qed

lemma forward_lookup_insert_freq:
  "size_sound t \<Longrightarrow> forward_lookup (insert_bst t x) x = Inr (st, fr) \<Longrightarrow> 1 \<le> fr"
proof (induction t arbitrary: st fr)
  case MEmpty
  then show ?case by (auto simp: Let_def)
next
  case (MNode s y l r)
  then show ?case
    by (auto simp: Let_def split: if_splits sum.splits prod.splits)
qed

lemma index0_size: "size_sound t \<Longrightarrow> 0 < size_or_zero t \<Longrightarrow> index0 t = Inr (size_or_zero t)"
  by (cases t) auto

lemma rltr_sound:
  "size_sound t \<Longrightarrow> 0 \<le> idx \<Longrightarrow> idx < size_or_zero t \<Longrightarrow>
   \<exists>t' sl x. reverse_lookup_then_remove t idx = Inr (t', sl, x)
     \<and> reverse_lookup t idx = Inr (sl, x)
     \<and> size_or_zero t' = size_or_zero t - 1
     \<and> size_sound t' \<and> symbols t' \<subseteq> symbols t
     \<and> x \<in> set (to_sequence t)
     \<and> (bst_order t \<longrightarrow> remove_bst t x = Inr t')"
proof (induction t arbitrary: idx)
  case MEmpty
  then show ?case by simp
next
  case (MNode s y l r)
  let ?ys = "size_or_zero l"
  let ?yf = "s - ?ys - size_or_zero r"
  have s: "1 \<le> s" "0 \<le> ?yf" "size_sound l" "size_sound r"
    using MNode.prems(1) by auto
  have i: "0 \<le> idx" "idx < s" using MNode.prems by auto
  consider (L) "idx < ?ys" | (R) "\<not> idx < ?ys" "?ys + ?yf \<le> idx" | (M) "\<not> idx < ?ys" "\<not> ?ys + ?yf \<le> idx"
    by blast
  then show ?case
  proof cases
    case L
    obtain l' sl x where a: "reverse_lookup_then_remove l idx = Inr (l', sl, x)"
        "reverse_lookup l idx = Inr (sl, x)" "size_or_zero l' = size_or_zero l - 1"
        "size_sound l'" "symbols l' \<subseteq> symbols l" "x \<in> set (to_sequence l)"
        "bst_order l \<longrightarrow> remove_bst l x = Inr l'"
      using MNode.IH(1)[OF s(3) i(1) L] by blast
    have xl: "x \<in> symbols l" using a(6) set_to_sequence[of l] by auto
    obtain st fr where sl: "sl = (st, fr)" by (cases sl)
    have rm: "bst_order (MNode s y l r) \<longrightarrow>
        remove_bst (MNode s y l r) x = Inr (if s - 1 \<noteq> 0 then MNode (s - 1) y l' r else MEmpty)"
      using a(7) xl by auto
    show ?thesis
      using L a(1-6) sl s i rm by (auto simp: Let_def)
  next
    case R
    have rpos: "0 < size_or_zero r" using R i by simp
    have r0: "index0 r = Inr (size_or_zero r)" using index0_size[OF s(4) rpos] .
    let ?snr = "s - size_or_zero r"
    have j: "0 \<le> idx - ?snr" "idx - ?snr < size_or_zero r" using R i by auto
    obtain r' sl x where a: "reverse_lookup_then_remove r (idx - ?snr) = Inr (r', sl, x)"
        "reverse_lookup r (idx - ?snr) = Inr (sl, x)" "size_or_zero r' = size_or_zero r - 1"
        "size_sound r'" "symbols r' \<subseteq> symbols r" "x \<in> set (to_sequence r)"
        "bst_order r \<longrightarrow> remove_bst r x = Inr r'"
      using MNode.IH(2)[OF s(4) j] by blast
    have xr: "x \<in> symbols r" using a(6) set_to_sequence[of r] by auto
    obtain st fr where sl: "sl = (st, fr)" by (cases sl)
    have rm: "bst_order (MNode s y l r) \<longrightarrow>
        remove_bst (MNode s y l r) x = Inr (if s - 1 \<noteq> 0 then MNode (s - 1) y l r' else MEmpty)"
      using a(7) xr by (auto dest: order.asym)
    show ?thesis
      using R a(1-6) sl s i rm r0 by (auto simp: Let_def)
  next
    case M
    have yf: "1 \<le> ?yf" using M by simp
    have rm: "remove_bst (MNode s y l r) y = Inr (if s - 1 \<noteq> 0 then MNode (s - 1) y l r else MEmpty)"
      by auto
    have mem: "y \<in> set (to_sequence (MNode s y l r))" using yf by auto
    show ?thesis
      using M s i rm mem by (auto simp: Let_def)
  qed
qed

lemma forward_lookup_error: "forward_lookup t x = Inl e \<Longrightarrow> e = ValueError"
proof (induction t)
  case MEmpty
  then show ?case by simp
next
  case (MNode s y l r)
  then show ?case
    by (cases r) (auto split: if_splits sum.splits prod.splits simp: Let_def)
qed

lemma forward_lookup_fails_iff:
  "bst_order t \<Longrightarrow> (\<exists>e. forward_lookup t x = Inl e) \<longleftrightarrow> x \<notin> symbols t"
proof (induction t)
  case MEmpty
  then show ?case by simp
next
  case (MNode s y l r)
  then show ?case
    by (cases r) (auto split: if_splits sum.splits prod.splits simp: Let_def dest: order.asym)
qed

lemma rltr_symbols:
  "reverse_lookup_then_remove t idx = Inr (t', sl, x) \<Longrightarrow> symbols t' \<subseteq> symbols t"
proof (induction t arbitrary: idx t' sl x)
  case MEmpty
  then show ?case by simp
next
  case (MNode s y l r)
  then show ?case
    by (fastforce simp: Let_def split: if_splits sum.splits prod.splits)
qed

lemma rltr_bst_order:
  "reverse_lookup_then_remove t idx = Inr (t', sl, x) \<Longrightarrow> bst_order t \<Longrightarrow> bst_order t'"
proof (induction t arbitrary: idx t' sl x)
  case MEmpty
  then show ?case by simp
next
  case (MNode s y l r)
  show ?case
    using MNode.prems MNode.IH rltr_symbols
    by (fastforce simp: Let_def split: if_splits sum.splits prod.splits)
qed

lemma remove_bst_sound:
  "size_sound t \<Longrightarrow> bst_order t \<Longrightarrow> x \<in> set (to_sequence t) \<Longrightarrow>
   \<exists>t'. remove_bst t x = Inr t' \<and> size_sound t' \<and> size_or_zero t' = size_or_zero t - 1
     \<and> symbols t' \<subseteq> symbols t \<and> bst_order t'"
proof (induction t)
  case MEmpty
  then show ?case by simp
next
  case (MNode s y l r)
  have sl: "set (to_sequence l) \<subseteq> symbols l" and sr: "set (to_sequence r) \<subseteq> symbols r"
    by (rule set_to_sequence)+
  show ?case
  proof (cases "s = 1")
    case True
    then show ?thesis by simp
  next
    case s1: False
    consider (L) "x < y" | (R) "y < x" | (M) "x = y" by (metis less_linear)
    then show ?thesis
    proof cases
      case L
      then have "x \<in> set (to_sequence l)"
        using MNode.prems sr by (auto split: if_splits dest: order.asym)
      then obtain l' where "remove_bst l x = Inr l'" "size_sound l'"
          "size_or_zero l' = size_or_zero l - 1" "symbols l' \<subseteq> symbols l" "bst_order l'"
        using MNode.IH(1) MNode.prems by auto
      then show ?thesis using L s1 MNode.prems by auto
    next
      case R
      then have "x \<in> set (to_sequence r)"
        using MNode.prems sl by (auto split: if_splits dest: order.asym)
      then obtain r' where "remove_bst r x = Inr r'" "size_sound r'"
          "size_or_zero r' = size_or_zero r - 1" "symbols r' \<subseteq> symbols r" "bst_order r'"
        using MNode.IH(2) MNode.prems by auto
      then show ?thesis using R s1 MNode.prems by (auto dest: order.asym)
    next
      case M
      have "x \<notin> set (to_sequence l)" "x \<notin> set (to_sequence r)"
        using M MNode.prems(2) sl sr by auto
      then have "0 < nat (s - size_or_zero l - size_or_zero r)"
        using MNode.prems(3) M by (auto split: if_splits)
      then show ?thesis using M s1 MNode.prems by auto
    qed
  qed
qed

lemma count_list_replicate_eq: "count_list (replicate n y) x = (if x = y then n else 0)"
  by (induction n) auto

lemma forward_lookup_slice:
  "size_sound t \<Longrightarrow> bst_order t \<Longrightarrow> x \<in> symbols t \<Longrightarrow>
   forward_lookup t x =
     Inr (int (length (filter (\<lambda>z. z < x) (to_sequence t))), int (count_list (to_sequence t) x))"
proof (induction t)
  case MEmpty
  then show ?case by simp
next
  case (MNode s y l r)
  have hl: "\<And>z. z \<in> set (to_sequence l) \<Longrightarrow> z < y"
    and hr: "\<And>z. z \<in> set (to_sequence r) \<Longrightarrow> y < z"
    using MNode.prems(2) set_to_sequence[of l] set_to_sequence[of r] by auto
  have ll: "int (length (to_sequence l)) = size_or_zero l"
    and lr: "int (length (to_sequence r)) = size_or_zero r"
    using MNode.prems(1) by (simp_all add: length_to_sequence)
  have m: "0 \<le> s - size_or_zero l - size_or_zero r" using MNode.prems(1) by simp
  consider (L) "x < y" | (R) "y < x" | (M) "x = y" by (metis less_linear)
  then show ?case
  proof cases
    case L
    then have xl: "x \<in> symbols l" using MNode.prems by (auto dest: order.asym)
    have g: "\<And>z. z \<in> set (to_sequence r) \<Longrightarrow> x < z"
      using L hr by (blast intro: less_trans)
    have f: "filter (\<lambda>z. z < x) (to_sequence r) = []" "x \<notin> set (to_sequence r)"
      using g by (auto simp: filter_empty_conv dest: order.asym)
    have "forward_lookup l x =
      Inr (int (length (filter (\<lambda>z. z < x) (to_sequence l))), int (count_list (to_sequence l) x))"
      using MNode.IH(1) MNode.prems xl by simp
    then show ?thesis using L f by (auto simp: count_list_replicate_eq dest: order.asym)
  next
    case R
    then have xr: "x \<in> symbols r" using MNode.prems by (auto dest: order.asym)
    then obtain rs ry rl rr where r: "r = MNode rs ry rl rr" by (cases r) auto
    have g: "\<And>z. z \<in> set (to_sequence l) \<Longrightarrow> z < x"
      using R hl by (blast intro: less_trans)
    have f: "filter (\<lambda>z. z < x) (to_sequence l) = to_sequence l" "x \<notin> set (to_sequence l)"
      using g by (auto simp: filter_id_conv)
    have "forward_lookup r x =
      Inr (int (length (filter (\<lambda>z. z < x) (to_sequence r))), int (count_list (to_sequence r) x))"
      using MNode.IH(2) MNode.prems xr by simp
    then show ?thesis using R f ll m r by (auto simp: count_list_replicate_eq dest: order.asym)
  next
    case M
    have f: "filter (\<lambda>z. z < x) (to_sequence l) = to_sequence l" "x \<notin> set (to_sequence l)"
        "filter (\<lambda>z. z < x) (to_sequence r) = []" "x \<notin> set (to_sequence r)"
      using M hl hr by (auto simp: filter_id_conv filter_empty_conv dest: order.asym)
    show ?thesis using M f ll m by (auto simp: Let_def count_list_replicate_eq)
  qed
qed


lemma reachable_sound: "reachable t \<Longrightarrow> size_sound t \<and> bst_order t"
proof (induction rule: reachable.induct)
  case reach_empty
  then show ?case by simp
next
  case (reach_insert t x)
  then show ?case by (simp add: size_sound_insert_bst bst_order_insert_bst)
next
  case (reach_remove t x t')
  then show ?case using remove_bst_sound[of t x] by auto
next
  case (reach_insert_lookup t x t' sl)
  then have "t' = insert_bst t x"
    using itfl_eq[of t x] by (auto split: sum.splits)
  with reach_insert_lookup show ?case
    by (simp add: size_sound_insert_bst bst_order_insert_bst)
next
  case (reach_lookup_remove t idx t' sl x)
  then show ?case
    using rltr_sound[of t idx] rltr_bst_order[of t idx t' sl x] by auto
qed

subsection \<open>Size and order invariant (C3)\<close>

text \<open>
  C3, as claimed: every tree reachable from the empty multiset keeps, at every node, a
  pivot multiplicity of at least 1. This fails. Removing by index the only copy of a
  pivot that still has a child leaves the node in place with multiplicity 0: from
  \<open>insert 2; insert 1\<close>, \<open>reverse_lookup_then_remove\<close> at index 1 takes out the 2 and
  returns \<open>(1, 2, (1, 1, (), ()), ())\<close>.
\<close>

theorem reachable_multiplicity_counterexample:
  "reverse_lookup_then_remove (insert_bst (insert_bst MEmpty (2::nat)) 1) 1
     = Inr (MNode 1 2 (MNode 1 1 MEmpty MEmpty) MEmpty, (1, 1), 2)
   \<and> reachable (MNode 1 (2::nat) (MNode 1 1 MEmpty MEmpty) MEmpty)
   \<and> \<not> size_consistent (MNode 1 (2::nat) (MNode 1 1 MEmpty MEmpty) MEmpty)"
proof -
  let ?t = "insert_bst (insert_bst MEmpty (2::nat)) 1"
  have r: "reverse_lookup_then_remove ?t 1
     = Inr (MNode 1 2 (MNode 1 1 MEmpty MEmpty) MEmpty, (1, 1), 2)"
    by simp
  have "reachable ?t"
    by (intro reach_insert reach_empty)
  then have "reachable (MNode 1 (2::nat) (MNode 1 1 MEmpty MEmpty) MEmpty)"
    by (rule reach_lookup_remove[where idx = 1, OF _ _ _ r]) simp_all
  then show ?thesis using r by simp
qed

text \<open>
  C3, amended: every tree reachable from the empty multiset by insert, remove of a
  symbol that is an element of the multiset, insert\_then\_forward\_lookup and
  reverse\_lookup\_then\_remove at a valid index satisfies, at every node,
  \<open>size \<ge> 1\<close> and \<open>size - left.size - right.size \<ge> 0\<close>, together with the
  search-tree order on the pivots.
\<close>

theorem reachable_invariant: "reachable t \<Longrightarrow> size_sound t \<and> bst_order t"
  by (rule reachable_sound)

theorem reachable_invariant_witness:
  "reachable (MNode 1 (2::nat) (MNode 1 1 MEmpty MEmpty) MEmpty)
   \<and> size_sound (MNode 1 (2::nat) (MNode 1 1 MEmpty MEmpty) MEmpty)
   \<and> bst_order (MNode 1 (2::nat) (MNode 1 1 MEmpty MEmpty) MEmpty)"
proof -
  let ?t = "insert_bst (insert_bst MEmpty (2::nat)) 1"
  have r: "reverse_lookup_then_remove ?t 1
     = Inr (MNode 1 2 (MNode 1 1 MEmpty MEmpty) MEmpty, (1, 1), 2)"
    by simp
  have "reachable ?t"
    by (intro reach_insert reach_empty)
  then have h: "reachable (MNode 1 (2::nat) (MNode 1 1 MEmpty MEmpty) MEmpty)"
    by (rule reach_lookup_remove[where idx = 1, OF _ _ _ r]) simp_all
  show ?thesis using h reachable_invariant[OF h] by simp
qed

subsection \<open>Query consistency after insert (C4)\<close>

text \<open>
  C4: for a multiset \<open>m\<close> with sound sizes and a symbol \<open>x\<close>, forward\_lookup on
  \<open>insert(m, x)\<close> returns a slice \<open>(start, freq)\<close> with \<open>freq \<ge> 1\<close>, and
  reverse\_lookup at every index of \<open>[start, start + freq)\<close> returns that slice and
  \<open>x\<close>.
\<close>

theorem insert_lookup_consistent:
  "size_sound m \<Longrightarrow>
   \<exists>start freq. forward_lookup (insert_bst m x) x = Inr (start, freq) \<and> 1 \<le> freq
     \<and> (\<forall>idx. start \<le> idx \<and> idx < start + freq \<longrightarrow>
           reverse_lookup (insert_bst m x) idx = Inr ((start, freq), x))"
proof -
  assume m: "size_sound m"
  obtain start freq where f: "forward_lookup (insert_bst m x) x = Inr (start, freq)"
    using forward_lookup_insert_total by blast
  have s: "size_sound (insert_bst m x)" using m by (rule size_sound_insert_bst)
  have "1 \<le> freq" using forward_lookup_insert_freq[OF m f] .
  moreover have "\<forall>idx. start \<le> idx \<and> idx < start + freq \<longrightarrow>
      reverse_lookup (insert_bst m x) idx = Inr ((start, freq), x)"
    using reverse_lookup_of_forward_lookup[OF s f] by blast
  ultimately show ?thesis using f by blast
qed

theorem insert_lookup_consistent_witness:
  "size_sound (build_multiset [3, 1, 1, 2 :: nat])
   \<and> forward_lookup (insert_bst (build_multiset [3, 1, 1, 2 :: nat]) 1) 1 = Inr (0, 3)
   \<and> reverse_lookup (insert_bst (build_multiset [3, 1, 1, 2 :: nat]) 1) 2 = Inr ((0, 3), 1)"
proof -
  have h: "size_sound (build_multiset [3, 1, 1, 2 :: nat])"
    by (simp add: build_multiset_def)
  have f: "forward_lookup (insert_bst (build_multiset [3, 1, 1, 2 :: nat]) 1) 1 = Inr (0, 3)"
    by (simp add: build_multiset_def)
  show ?thesis
    using h f insert_lookup_consistent[OF h, of 1] by auto
qed

subsection \<open>Fused operations (C5)\<close>

text \<open>
  C5: for every multiset \<open>m\<close>, the empty one included, and every symbol \<open>x\<close>,
  insert\_then\_forward\_lookup returns the tree \<open>insert(m, x)\<close> with the slice
  \<open>forward_lookup(insert(m, x), x)\<close>; for a valid multiset and \<open>0 \<le> idx < size\<close>,
  reverse\_lookup\_then\_remove returns the slice and symbol of
  \<open>reverse_lookup(m, idx)\<close> with the tree \<open>remove(m, x)\<close> for that symbol \<open>x\<close>.
\<close>

theorem fused_equals_unfused:
  "(\<exists>sl. forward_lookup (insert_bst m x) x = Inr sl
      \<and> insert_then_forward_lookup m x = Inr (insert_bst m x, sl))
   \<and> (size_sound m \<and> bst_order m \<and> 0 \<le> idx \<and> idx < size_or_zero m \<longrightarrow>
        (\<exists>m' sl y. reverse_lookup m idx = Inr (sl, y) \<and> remove_bst m y = Inr m'
           \<and> reverse_lookup_then_remove m idx = Inr (m', sl, y)))"
proof -
  obtain start freq where f: "forward_lookup (insert_bst m x) x = Inr (start, freq)"
    using forward_lookup_insert_total by blast
  then have a: "insert_then_forward_lookup m x = Inr (insert_bst m x, (start, freq))"
    by (simp add: itfl_eq)
  have b: "\<exists>m' sl y. reverse_lookup m idx = Inr (sl, y) \<and> remove_bst m y = Inr m'
      \<and> reverse_lookup_then_remove m idx = Inr (m', sl, y)"
    if m: "size_sound m" "bst_order m" and i: "0 \<le> idx" "idx < size_or_zero m"
    using rltr_sound[OF m(1) i] m(2) by blast
  show ?thesis using f a b by blast
qed

theorem fused_equals_unfused_witness:
  "size_sound (build_multiset [3, 1, 1, 2 :: nat]) \<and> bst_order (build_multiset [3, 1, 1, 2 :: nat])
   \<and> (0::int) \<le> 2 \<and> 2 < size_or_zero (build_multiset [3, 1, 1, 2 :: nat])
   \<and> insert_then_forward_lookup MEmpty (2 :: nat) = Inr (MNode 1 2 MEmpty MEmpty, (0, 1))
   \<and> insert_then_forward_lookup (build_multiset [3, 1, 1, 2 :: nat]) 2
        = Inr (insert_bst (build_multiset [3, 1, 1, 2 :: nat]) 2, (2, 2))
   \<and> reverse_lookup_then_remove (build_multiset [3, 1, 1, 2 :: nat]) 2
        = Inr (MNode 3 3 (MNode 2 1 MEmpty MEmpty) MEmpty, (2, 1), 2)"
proof -
  let ?m = "build_multiset [3, 1, 1, 2 :: nat]"
  have h: "size_sound ?m" "bst_order ?m" "(0::int) \<le> 2" "2 < size_or_zero ?m"
    by (simp_all add: build_multiset_def)
  have e: "forward_lookup (insert_bst ?m 2) 2 = Inr (2, 2)"
      "reverse_lookup ?m 2 = Inr ((2, 1), 2)"
      "remove_bst ?m 2 = Inr (MNode 3 3 (MNode 2 1 MEmpty MEmpty) MEmpty)"
    by (simp_all add: build_multiset_def)
  have e0: "forward_lookup (insert_bst MEmpty (2 :: nat)) 2 = Inr (0, 1)"
      "insert_bst MEmpty (2 :: nat) = MNode 1 2 MEmpty MEmpty"
    by simp_all
  show ?thesis
    using h e e0 fused_equals_unfused[of ?m 2 2] fused_equals_unfused[of MEmpty 2 0] by auto
qed

subsection \<open>Flattening a built multiset sorts the sequence (C6)\<close>

text \<open>
  C6: for every finite sequence \<open>xs\<close> of totally ordered symbols,
  \<open>to_sequence(build_multiset(xs))\<close> is \<open>sorted(xs)\<close>.
\<close>

theorem to_sequence_build_multiset: "to_sequence (build_multiset xs) = sort xs"
proof -
  have "mset (to_sequence (build_multiset xs)) = mset xs"
    and "sorted (to_sequence (build_multiset xs))"
    using foldl_insert_inv[of MEmpty xs]
    by (simp_all add: build_multiset_def sorted_to_sequence)
  then show ?thesis
    by (simp add: properties_for_sort)
qed

subsection \<open>Remove undoes insert (C7)\<close>

text \<open>
  C7: for a multiset \<open>m\<close> with sound sizes, \<open>remove(insert(m, x), x)\<close> is \<open>m\<close>
  itself, the same tree; on the empty multiset the inserted leaf collapses back to the
  empty tuple.
\<close>

theorem remove_insert_identity:
  "size_sound m \<Longrightarrow>
   remove_bst (insert_bst m x) x = Inr m \<and> remove_bst (insert_bst MEmpty x) x = Inr MEmpty"
  by (simp add: remove_insert_bst)

theorem remove_insert_identity_witness:
  "size_sound (build_multiset [3, 1, 1, 2 :: nat])
   \<and> remove_bst (insert_bst (build_multiset [3, 1, 1, 2 :: nat]) 2) 2
       = Inr (build_multiset [3, 1, 1, 2 :: nat])
   \<and> remove_bst (insert_bst MEmpty (2::nat)) 2 = Inr MEmpty"
proof -
  have h: "size_sound (build_multiset [3, 1, 1, 2 :: nat])"
    by (simp add: build_multiset_def)
  show ?thesis
    using h remove_insert_identity[OF h, of 2] by simp
qed

subsection \<open>Failure of forward\_lookup (C10)\<close>

text \<open>
  C10: on a valid multiset, forward\_lookup raises exactly when \<open>x\<close> is the pivot of
  no node, and the only error it raises is the ValueError of the empty subtree; when
  \<open>x\<close> is stored it returns the slice of \<open>x\<close>: the number of elements below \<open>x\<close>
  and the number of copies of \<open>x\<close>. The tree is a value and is not changed.
\<close>

theorem forward_lookup_symbol_not_found:
  "size_sound m \<Longrightarrow> bst_order m \<Longrightarrow>
   (forward_lookup m x = Inl ValueError \<longleftrightarrow> x \<notin> symbols m)
   \<and> (\<forall>e. forward_lookup m x = Inl e \<longrightarrow> e = ValueError)
   \<and> (x \<in> symbols m \<longrightarrow>
        forward_lookup m x =
          Inr (int (length (filter (\<lambda>z. z < x) (to_sequence m))),
               int (count_list (to_sequence m) x)))"
proof -
  assume m: "size_sound m" "bst_order m"
  have "(\<exists>e. forward_lookup m x = Inl e) \<longleftrightarrow> x \<notin> symbols m"
    using forward_lookup_fails_iff[OF m(2)] .
  then have "forward_lookup m x = Inl ValueError \<longleftrightarrow> x \<notin> symbols m"
    using forward_lookup_error[of m x] by blast
  then show ?thesis
    using forward_lookup_error[of m x] forward_lookup_slice[OF m] by blast
qed

theorem forward_lookup_symbol_not_found_witness:
  "size_sound (build_multiset [3, 1, 1, 2 :: nat]) \<and> bst_order (build_multiset [3, 1, 1, 2 :: nat])
   \<and> forward_lookup (build_multiset [3, 1, 1, 2 :: nat]) 5 = Inl ValueError
   \<and> forward_lookup (build_multiset [3, 1, 1, 2 :: nat]) 2 = Inr (2, 1)"
proof -
  let ?m = "build_multiset [3, 1, 1, 2 :: nat]"
  have h: "size_sound ?m" "bst_order ?m"
    by (simp_all add: build_multiset_def)
  have s: "5 \<notin> symbols ?m" "2 \<in> symbols ?m"
      "int (length (filter (\<lambda>z. z < 2) (to_sequence ?m))) = 2"
      "int (count_list (to_sequence ?m) 2) = 1"
    by (simp_all add: build_multiset_def)
  show ?thesis
    using h s forward_lookup_symbol_not_found[OF h, of 5]
      forward_lookup_symbol_not_found[OF h, of 2] by simp
qed

subsection \<open>Sampling an element without replacement\<close>

text \<open>
  What reverse\_lookup\_then\_remove does to the content of a valid multiset, and how
  the slice it returns relates to the index and to forward\_lookup.
\<close>

lemma rltr_mset:
  "size_sound (t :: 'a::linorder mstree) \<Longrightarrow> 0 \<le> idx \<Longrightarrow> idx < size_or_zero t \<Longrightarrow>
   reverse_lookup_then_remove t idx = Inr (t', sl, x) \<Longrightarrow>
   mset (to_sequence t) = add_mset x (mset (to_sequence t'))"
proof (induction t arbitrary: idx t' sl x)
  case MEmpty
  then show ?case by simp
next
  case (MNode s y l r)
  let ?ys = "size_or_zero l"
  let ?yf = "s - ?ys - size_or_zero r"
  have s: "1 \<le> s" "0 \<le> ?yf" "size_sound l" "size_sound r"
    using MNode.prems(1) by auto
  have i: "0 \<le> idx" "idx < s" using MNode.prems by auto
  consider (L) "idx < ?ys" | (R) "\<not> idx < ?ys" "?ys + ?yf \<le> idx" | (M) "\<not> idx < ?ys" "\<not> ?ys + ?yf \<le> idx"
    by blast
  then show ?case
  proof cases
    case L
    obtain l' where a: "reverse_lookup_then_remove l idx = Inr (l', sl, x)"
        "t' = (if s - 1 \<noteq> 0 then MNode (s - 1) y l' r else MEmpty)"
      using MNode.prems(4) L by (auto simp: Let_def split: sum.splits)
    have m: "mset (to_sequence l) = add_mset x (mset (to_sequence l'))"
      using MNode.IH(1)[OF s(3) i(1) L a(1)] .
    have sz: "size_or_zero l' = ?ys - 1"
      using rltr_sound[OF s(3) i(1) L] a(1) by auto
    have szl: "size_or_zero l = size_or_zero l' + 1" using sz by simp
    show ?thesis
    proof (cases "s - 1 \<noteq> 0")
      case True
      then show ?thesis using a(2) m by (simp add: szl algebra_simps)
    next
      case False
      then have "s = 1" by simp
      then have "?ys = 1" "size_or_zero r = 0" "?yf = 0"
        using L i s size_sound_nonneg[OF s(4)] by auto
      moreover have "to_sequence r = []"
        using length_to_sequence[OF s(4)] \<open>size_or_zero r = 0\<close> by simp
      moreover have "to_sequence l' = []"
      proof -
        have "size_sound l'" using rltr_sound[OF s(3) i(1) L] a(1) by auto
        then show ?thesis using length_to_sequence[of l'] sz \<open>?ys = 1\<close> by simp
      qed
      ultimately show ?thesis using a(2) m False by simp
    qed
  next
    case R
    have rpos: "0 < size_or_zero r" using R i by simp
    have r0: "index0 r = Inr (size_or_zero r)" using index0_size[OF s(4) rpos] .
    let ?snr = "s - size_or_zero r"
    have j: "0 \<le> idx - ?snr" "idx - ?snr < size_or_zero r" using R i by auto
    obtain r' st fr where a: "reverse_lookup_then_remove r (idx - ?snr) = Inr (r', (st, fr), x)"
        "t' = (if s - 1 \<noteq> 0 then MNode (s - 1) y l r' else MEmpty)"
      using MNode.prems(4) R r0 by (auto simp: Let_def split: sum.splits)
    have m: "mset (to_sequence r) = add_mset x (mset (to_sequence r'))"
      using MNode.IH(2)[OF s(4) j a(1)] .
    have sz: "size_or_zero r' = size_or_zero r - 1"
      using rltr_sound[OF s(4) j] a(1) by auto
    have szr: "size_or_zero r = size_or_zero r' + 1" using sz by simp
    show ?thesis
    proof (cases "s - 1 \<noteq> 0")
      case True
      then show ?thesis using a(2) m by (simp add: szr algebra_simps)
    next
      case False
      then have "s = 1" by simp
      then have "size_or_zero r = 1" "?ys = 0" "?yf = 0"
        using R i s rpos size_sound_nonneg[OF s(3)] by auto
      moreover have "to_sequence l = []"
        using length_to_sequence[OF s(3)] \<open>?ys = 0\<close> by simp
      moreover have "to_sequence r' = []"
      proof -
        have "size_sound r'" using rltr_sound[OF s(4) j] a(1) by auto
        then show ?thesis using length_to_sequence[of r'] sz \<open>size_or_zero r = 1\<close> by simp
      qed
      ultimately show ?thesis using a(2) m False by simp
    qed
  next
    case M
    have yf: "1 \<le> ?yf" using M by simp
    have a: "t' = (if s - 1 \<noteq> 0 then MNode (s - 1) y l r else MEmpty)" "x = y"
      using MNode.prems(4) M by (auto simp: Let_def)
    have n: "nat ?yf = Suc (nat (s - 1 - ?ys - size_or_zero r))" using yf by simp
    show ?thesis
    proof (cases "s - 1 \<noteq> 0")
      case True
      then show ?thesis using a n by simp
    next
      case False
      then have "s = 1" by simp
      then have "?ys = 0" "size_or_zero r = 0"
        using yf size_sound_nonneg[OF s(3)] size_sound_nonneg[OF s(4)] by auto
      then have "to_sequence l = []" "to_sequence r = []"
        using length_to_sequence[OF s(3)] length_to_sequence[OF s(4)] by simp_all
      then show ?thesis using a n False \<open>s = 1\<close> \<open>?ys = 0\<close> \<open>size_or_zero r = 0\<close> by simp
    qed
  qed
qed

lemma reverse_lookup_forward:
  "size_sound (t :: 'a::linorder mstree) \<Longrightarrow> bst_order t \<Longrightarrow>
   reverse_lookup t idx = Inr (sl, x) \<Longrightarrow>
   forward_lookup t x = Inr sl \<and> x \<in> symbols t"
proof (induction t arbitrary: idx sl)
  case MEmpty
  then show ?case by simp
next
  case (MNode s y l r)
  let ?ys = "size_or_zero l"
  let ?yf = "s - ?ys - size_or_zero r"
  have i: "0 \<le> idx" "idx < s"
    using MNode.prems(3) by (auto split: if_splits)
  consider (L) "idx < ?ys" | (R) "\<not> idx < ?ys" "?ys + ?yf \<le> idx" | (M) "\<not> idx < ?ys" "\<not> ?ys + ?yf \<le> idx"
    by blast
  then show ?case
  proof cases
    case L
    then have a: "reverse_lookup l idx = Inr (sl, x)"
      using MNode.prems(3) i by (simp add: Let_def)
    have b: "forward_lookup l x = Inr sl" "x \<in> symbols l"
      using MNode.IH(1)[OF _ _ a] MNode.prems by simp_all
    then have "x < y" using MNode.prems(2) by simp
    then show ?thesis using b by (auto dest: order.asym)
  next
    case R
    obtain r0 where r0: "index0 r = Inr r0"
      using MNode.prems(3) R i by (auto simp: Let_def split: sum.splits)
    obtain st fr where a: "reverse_lookup r (idx - (s - r0)) = Inr ((st, fr), x)"
        "sl = (st + (s - r0), fr)"
      using MNode.prems(3) R i r0 by (auto simp: Let_def split: sum.splits)
    have b: "forward_lookup r x = Inr (st, fr)" "x \<in> symbols r"
      using MNode.IH(2)[OF _ _ a(1)] MNode.prems by simp_all
    then have "y < x" using MNode.prems(2) by simp
    then show ?thesis using b a(2) r0 by (auto dest: order.asym)
  next
    case M
    then have "sl = (?ys, ?yf)" "x = y"
      using MNode.prems(3) i by (auto simp: Let_def)
    then show ?thesis by (simp add: Let_def)
  qed
qed

lemma filter_length_mset: "mset xs = mset ys \<Longrightarrow> length (filter P xs) = length (filter P ys)"
proof -
  assume "mset xs = mset ys"
  then have "mset (filter P xs) = mset (filter P ys)" by simp
  then show ?thesis by (rule mset_eq_length)
qed

lemma count_list_mset: "mset xs = mset ys \<Longrightarrow> count_list xs x = count_list ys x"
  by (metis count_mset)

lemma slice_by_content:
  assumes "size_sound (t :: 'a::linorder mstree)" "bst_order t"
    and "size_sound u" "bst_order u"
    and "mset (to_sequence t) = mset (to_sequence u)"
    and "x \<in> symbols t" "x \<in> symbols u"
  shows "forward_lookup t x = forward_lookup u x"
  using forward_lookup_slice[OF assms(1,2,6)] forward_lookup_slice[OF assms(3,4,7)]
    filter_length_mset[OF assms(5)] count_list_mset[OF assms(5)]
  by simp

lemma reverse_lookup_range:
  "size_sound (t :: 'a::linorder mstree) \<Longrightarrow> reverse_lookup t idx = Inr ((st, fr), x) \<Longrightarrow>
   st \<le> idx \<and> idx < st + fr"
proof (induction t arbitrary: idx st fr)
  case MEmpty
  then show ?case by simp
next
  case (MNode s y l r)
  let ?ys = "size_or_zero l"
  let ?yf = "s - ?ys - size_or_zero r"
  have i: "0 \<le> idx" "idx < s"
    using MNode.prems(2) by (auto split: if_splits)
  consider (L) "idx < ?ys" | (R) "\<not> idx < ?ys" "?ys + ?yf \<le> idx" | (M) "\<not> idx < ?ys" "\<not> ?ys + ?yf \<le> idx"
    by blast
  then show ?case
  proof cases
    case L
    then have "reverse_lookup l idx = Inr ((st, fr), x)"
      using MNode.prems(2) i by (simp add: Let_def)
    then show ?thesis using MNode.IH(1) MNode.prems(1) by simp
  next
    case R
    obtain r0 where r0: "index0 r = Inr r0"
      using MNode.prems(2) R i by (auto simp: Let_def split: sum.splits)
    obtain st' where a: "reverse_lookup r (idx - (s - r0)) = Inr ((st', fr), x)"
        "st = st' + (s - r0)"
      using MNode.prems(2) R i r0 by (auto simp: Let_def split: sum.splits)
    have "st' \<le> idx - (s - r0) \<and> idx - (s - r0) < st' + fr"
      using MNode.IH(2)[OF _ a(1)] MNode.prems(1) by simp
    then show ?thesis using a(2) by simp
  next
    case M
    then have "st = ?ys" "fr = ?yf"
      using MNode.prems(2) i by (auto simp: Let_def)
    then show ?thesis using M by simp
  qed
qed

lemma valid_size_length:
  "size_sound (t :: 'a mstree) \<Longrightarrow> size_sound u \<Longrightarrow>
   mset (to_sequence t) = mset (to_sequence u) \<Longrightarrow> size_or_zero t = size_or_zero u"
  using length_to_sequence[of t] length_to_sequence[of u] mset_eq_length by fastforce

lemma valid_empty: "size_sound (t :: 'a mstree) \<Longrightarrow> to_sequence t = [] \<Longrightarrow> t = MEmpty"
  using length_to_sequence[of t] by (cases t) auto

section \<open>Properties of the rANS engine\<close>

subsection \<open>Auxiliary lemmas\<close>


















text \<open>
  Whatever the state, the symbols that \<open>Uniform(prec)\<close> decodes lie in
  \<open>[0, prec)\<close>: they are CDF indices, remainders by the total.
\<close>

lemma cf_lane_below_total: "0 < P \<Longrightarrow> unat (cf_lane h P) < P"
proof -
  assume "0 < P"
  then have a: "unat h mod P < P" by simp
  have "unat (of_nat (unat h mod P) :: 64 word) = (unat h mod P) mod 2 ^ LENGTH(64)"
    by (rule unat_of_nat)
  also have "\<dots> \<le> unat h mod P" by (rule mod_less_eq_dividend)
  finally show ?thesis using a by (simp only: cf_lane_def)
qed

lemma Uniform_decode_below_total:
  assumes "0 < prec" and "Uniform_decode prec s = Inr (s', xs)"
  shows "\<forall>x \<in> set xs. unat x < prec"
proof -
  have "xs = map (\<lambda>h. cf_lane h prec) (fst s)"
    using assms(2) by (auto simp: Uniform_decode_def rans_decode_def split: sum.splits)
  then show ?thesis using cf_lane_below_total[OF assms(1)] by simp
qed

text \<open>
  The words that step 1 of encode pushes are pulled back by step 2 of pop whatever the
  positive bound is (lemma \<open>renorm_push_pull\<close>), so one encode on a lane at rest
  is undone by the decode and pop that follow it (lemma \<open>lane_roundtrip\<close>). The
  bound as section 4.A writes it does not keep the encoded lane at rest, though: from
  the base lane \<open>2^32\<close>, total 8 and symbol 3, the lane becomes 11. What a second
  encode on that lane does is therefore not derived here; the statements of this
  section concern one encode followed by its own decode.
\<close>

lemma encode_leaves_rest:
  "Uniform_encode 8 (base_message [1]) (Scalar 3) = Some (Inr ([11], [0]))
   \<and> (11 :: 64 word) < RANS_L"
  by (simp add: base_message_def Uniform_encode_def rans_encode_def encode_lane_def
      RANS_L_def RANS_BASE_def renorm_push.simps word_le_nat_alt word_less_nat_alt)

text \<open>
  The lanes are 64-bit: with a total above \<open>2^32\<close> the product of step 2 of encode can
  leave the lane. At the total \<open>2^33\<close> the base lane \<open>2^32\<close> is below the bound, is
  not renormalised, and \<open>2^32 * 2^33\<close> is 0 in 64 bits; decode then runs into the
  empty tail.
\<close>

lemma Uniform_lane_limit:
  "Uniform_encode 8589934592 (base_message [1]) (Scalar 0) = Some (Inr ([0], []))
   \<and> Uniform_decode 8589934592 ([0], []) = Inl StateUnderflow"
  by (simp add: base_message_def Uniform_encode_def Uniform_decode_def
      rans_encode_def rans_decode_def rans_pop_def encode_lane_def pop_lane_def cf_lane_def
      RANS_L_def RANS_BASE_def renorm_push.simps word_le_nat_alt word_less_nat_alt)

subsection \<open>The uniform codec (C8)\<close>




end
